theory Spec2Isabelle
  imports Main "HOL-Library.Sublist"
begin

section \<open>The paged collection of \<open>src/collection.js\<close>\<close>

text \<open>
  The source defines one constructor, \<open>Collection(query, loadNow)\<close>, and two methods on
  its prototype, \<open>more\<close> and \<open>refresh\<close>. A collection is an array-like object
  (its prototype is an array instance) carrying three more fields: \<open>query\<close>,
  \<open>loadingState\<close> and \<open>moreQ\<close>.

  The embedding keeps the source's names. What JavaScript leaves implicit is made explicit:
  \<^item> the array-like content of the object (the elements at the indices below its
    \<open>length\<close> property) is the list \<open>arr\<close>; the source itself calls the object
    \<open>this.arr\<close>. Assigning \<open>length = 0\<close> makes that content empty, and
    \<open>Array.prototype.push.apply\<close> writes the new elements from index \<open>length\<close> on;
  \<^item> \<open>loadingState\<close> is one of the three strings of the source, or still undefined;
  \<^item> a promise is a number: the promise that the \<open>n\<close>-th fresh call of \<open>more\<close>
    builds with \<open>query(lenBef).then(..., ...).finally(...)\<close> has the identity \<open>n\<close>,
    and \<open>chains\<close> records, for each of them, the two variables its handlers close over
    (\<open>lenBef\<close>, \<open>stateBef\<close>) and how far it has got;
  \<^item> the query function is opaque: \<open>queryCalls\<close> logs the offsets it has been called
    with, and the moment its promise settles, with an array of items or with an error, is
    an event from outside. The function is taken to keep the contract the source gives it,
    \<open>Function(Number) Promise\<close>: it returns a promise rather than throwing, and the
    error it may reject with is a plain value, not itself a promise.
\<close>

subsection \<open>Data\<close>

datatype loading_state = Unset | Loading | Loaded | Failed

text \<open>The object the success handler returns (lines 104--109).\<close>

record 'a load_result =
  items :: "'a list"
  oldLength :: nat
  newLength :: nat
  firstSuccessfulQuery :: bool

text \<open>
  What a handler of the chain returns: the success handler returns a load result, the
  failure handler returns the error it was given (line 112).
\<close>

datatype ('a, 'e) payload = LoadResult "'a load_result" | ErrorValue 'e

text \<open>
  How far the promise of one call of \<open>more\<close> has got. \<open>Pending\<close>: the promise of
  the query has not settled. \<open>Handled v\<close>: it has settled and the handler given to
  \<open>then\<close> has run and returned \<open>v\<close>; the callback given to \<open>finally\<close> has not
  run yet (it runs in a later job of the promise queue). \<open>Fulfilled v\<close>: that callback
  has run, and the promise that \<open>more\<close> returned is fulfilled with \<open>v\<close>.
  \<open>Rejected\<close> is the other way a promise can settle.
\<close>

datatype ('a, 'e) promise_status =
  Pending | Handled "('a, 'e) payload" | Fulfilled "('a, 'e) payload" | Rejected 'e

record ('a, 'e) chain =
  lenBef :: nat
  stateBef :: loading_state
  status :: "('a, 'e) promise_status"

record ('a, 'e) collection =
  arr :: "'a list"
  loadingState :: loading_state
  moreQ :: "nat option"
  queryCalls :: "nat list"
  chains :: "('a, 'e) chain list"

text \<open>How the promise returned by the query function settles.\<close>

datatype ('a, 'e) outcome = Resolve "'a list" | Reject 'e

subsection \<open>The methods\<close>

text \<open>
  \<open>more\<close> (lines 90--119), up to the point where it returns. It returns the promise and
  the collection as it has left it: unchanged when \<open>moreQ\<close> is set; otherwise the
  query has been called with \<open>lenBef\<close> and the new chain, pending, is in \<open>moreQ\<close>.
\<close>

definition more :: "('a, 'e) collection \<Rightarrow> nat \<times> ('a, 'e) collection" where
  "more col =
     (case moreQ col of
        Some q \<Rightarrow> (q, col)
      | None \<Rightarrow>
          (let lenBef = length (arr col);
               stateBef = loadingState col;
               q = length (chains col)
           in (q, col\<lparr>moreQ := Some q,
                      queryCalls := queryCalls col @ [lenBef],
                      chains := chains col @
                        [\<lparr>lenBef = lenBef, stateBef = stateBef, status = Pending\<rparr>]\<rparr>)))"

text \<open>\<open>refresh\<close> (lines 127--131).\<close>

definition refresh :: "('a, 'e) collection \<Rightarrow> nat \<times> ('a, 'e) collection" where
  "refresh col = more (col\<lparr>arr := [], loadingState := Loading\<rparr>)"

text \<open>The constructor (lines 36--73); \<open>loadNow\<close> is \<open>None\<close> when the argument is omitted.\<close>

definition Collection :: "bool option \<Rightarrow> ('a, 'e) collection" where
  "Collection loadNow =
     (let this = \<lparr>arr = [], loadingState = Unset, moreQ = None, queryCalls = [], chains = []\<rparr>
      in if loadNow = None \<or> loadNow = Some True then snd (refresh this) else this)"

text \<open>The success handler of chain \<open>q\<close> (lines 100--109).\<close>

definition onFulfilled :: "nat \<Rightarrow> 'a list \<Rightarrow> ('a, 'e) collection \<Rightarrow> ('a, 'e) collection" where
  "onFulfilled q its col =
     (let c = chains col ! q;
          col1 = col\<lparr>arr := arr col @ its\<rparr>;
          lenAf = length (arr col1);
          col2 = col1\<lparr>loadingState := Loaded\<rparr>;
          res = \<lparr>items = its, oldLength = lenBef c, newLength = lenAf,
                 firstSuccessfulQuery = (stateBef c = Loading \<and> 0 < lenAf)\<rparr>
      in col2\<lparr>chains := (chains col2)[q := c\<lparr>status := Handled (LoadResult res)\<rparr>]\<rparr>)"

text \<open>The failure handler of chain \<open>q\<close> (lines 110--113).\<close>

definition onRejected :: "nat \<Rightarrow> 'e \<Rightarrow> ('a, 'e) collection \<Rightarrow> ('a, 'e) collection" where
  "onRejected q err col =
     (let c = chains col ! q;
          col1 = col\<lparr>loadingState := Failed\<rparr>
      in col1\<lparr>chains := (chains col1)[q := c\<lparr>status := Handled (ErrorValue err)\<rparr>]\<rparr>)"

text \<open>
  The callback given to \<open>finally\<close> (lines 113--115), for a chain whose handler returned
  \<open>v\<close>: it clears \<open>moreQ\<close>, and the promise is then fulfilled with \<open>v\<close>.
\<close>

definition onFinally :: "nat \<Rightarrow> ('a, 'e) payload \<Rightarrow> ('a, 'e) collection \<Rightarrow> ('a, 'e) collection" where
  "onFinally q v col =
     (let col1 = col\<lparr>moreQ := None\<rparr>
      in col1\<lparr>chains := (chains col1)[q := (chains col1 ! q)\<lparr>status := Fulfilled v\<rparr>]\<rparr>)"

subsection \<open>Runs\<close>

text \<open>
  JavaScript runs one job at a time. A job of this program is a call of \<open>more\<close> or of
  \<open>refresh\<close> by the user, the handler of a chain whose query has settled, or the
  \<open>finally\<close> callback of a chain whose handler has run. A promise settles once, and
  \<open>finally\<close> follows the handler: an event for a chain that is not in the state for
  it changes nothing.
\<close>

datatype ('a, 'e) event =
  More | Refresh | QuerySettles nat "('a, 'e) outcome" | FinallyRuns nat

fun step :: "('a, 'e) event \<Rightarrow> ('a, 'e) collection \<Rightarrow> ('a, 'e) collection" where
  "step More col = snd (more col)"
| "step Refresh col = snd (refresh col)"
| "step (QuerySettles q out) col =
     (if q < length (chains col) \<and> status (chains col ! q) = Pending
      then (case out of Resolve its \<Rightarrow> onFulfilled q its col | Reject err \<Rightarrow> onRejected q err col)
      else col)"
| "step (FinallyRuns q) col =
     (if q < length (chains col)
      then (case status (chains col ! q) of Handled v \<Rightarrow> onFinally q v col | _ \<Rightarrow> col)
      else col)"

fun run :: "('a, 'e) event list \<Rightarrow> ('a, 'e) collection \<Rightarrow> ('a, 'e) collection" where
  "run [] col = col"
| "run (ev # evs) col = run evs (step ev col)"

text \<open>What a caller that waits for promise \<open>q\<close> has received so far.\<close>

definition received :: "('a, 'e) collection \<Rightarrow> nat \<Rightarrow> ('a, 'e) payload option" where
  "received col q =
     (if q < length (chains col)
      then (case status (chains col ! q) of Fulfilled v \<Rightarrow> Some v | _ \<Rightarrow> None)
      else None)"

section \<open>Properties\<close>

subsection \<open>Basic facts about runs\<close>

lemma run_append: "run (evs @ evs') col = run evs' (run evs col)"
  by (induction evs arbitrary: col) simp_all

lemma received_step: "received col q = Some v \<Longrightarrow> received (step ev col) q = Some v"
  by (cases ev)
     (auto simp: received_def more_def refresh_def onFulfilled_def onRejected_def onFinally_def
                 Let_def nth_append nth_list_update
           split: option.splits outcome.splits promise_status.splits if_splits)

lemma received_run: "received col q = Some v \<Longrightarrow> received (run evs col) q = Some v"
  by (induction evs arbitrary: col) (simp_all add: received_step)

text \<open>Calls of \<open>more\<close> and \<open>refresh\<close> never touch a chain that exists.\<close>

lemma more_outstanding: "moreQ col = Some q \<Longrightarrow> more col = (q, col)"
  by (simp add: more_def)

lemma more_fresh:
  "moreQ col = None \<Longrightarrow>
   more col = (length (chains col),
     col\<lparr>moreQ := Some (length (chains col)),
         queryCalls := queryCalls col @ [length (arr col)],
         chains := chains col @
           [\<lparr>lenBef = length (arr col), stateBef = loadingState col, status = Pending\<rparr>]\<rparr>)"
  by (simp add: more_def Let_def)

lemma step_keeps_chain:
  "ev = More \<or> ev = Refresh \<Longrightarrow> i < length (chains col) \<Longrightarrow>
   i < length (chains (step ev col)) \<and> chains (step ev col) ! i = chains col ! i"
  by (auto simp: more_def refresh_def Let_def nth_append split: option.splits)

lemma user_calls_keep_chain:
  "set mid \<subseteq> {More, Refresh} \<Longrightarrow> i < length (chains col) \<Longrightarrow>
   i < length (chains (run mid col)) \<and> chains (run mid col) ! i = chains col ! i"
proof (induction mid arbitrary: col)
  case Nil
  then show ?case by simp
next
  case (Cons ev mid)
  from Cons.prems have ev: "ev = More \<or> ev = Refresh" and mid: "set mid \<subseteq> {More, Refresh}"
    by auto
  from step_keeps_chain [OF ev Cons.prems(2)] Cons.IH [OF mid, of "step ev col"]
  show ?case by simp
qed

lemma user_calls_outstanding:
  "moreQ col = Some q \<Longrightarrow> set mid \<subseteq> {More, Refresh} \<Longrightarrow>
   run mid col = (if Refresh \<in> set mid then col\<lparr>arr := [], loadingState := Loading\<rparr> else col)"
proof (induction mid arbitrary: col)
  case Nil
  then show ?case by simp
next
  case (Cons ev mid)
  from Cons.prems have ev: "ev = More \<or> ev = Refresh" and mid: "set mid \<subseteq> {More, Refresh}"
    by auto
  from ev show ?case
  proof
    assume "ev = More"
    with Cons.prems(1) Cons.IH [OF Cons.prems(1) mid] show ?thesis
      by (simp add: more_outstanding)
  next
    assume r: "ev = Refresh"
    let ?c = "col\<lparr>arr := [], loadingState := Loading\<rparr>"
    have q: "moreQ ?c = Some q" using Cons.prems(1) by simp
    have "step ev col = ?c"
      using r q by (simp add: refresh_def more_outstanding)
    with r Cons.IH [OF q mid] show ?thesis
      by simp
  qed
qed

subsection \<open>Single flight\<close>

text \<open>
  C1. A call of \<open>more\<close> made while \<open>moreQ\<close> is set returns the promise in
  \<open>moreQ\<close> and leaves the collection as it was, so the query is not called; and
  whatever the callers of that promise receive, at whatever later moments, is one and the
  same value.
\<close>

theorem more_single_flight:
  assumes "moreQ col = Some q"
  shows "more col = (q, col) \<and> queryCalls (snd (more col)) = queryCalls col \<and>
         (\<forall>evs evs' v v'.
            received (run evs col) q = Some v \<longrightarrow>
            received (run evs' (run evs (snd (more col)))) (fst (more col)) = Some v' \<longrightarrow>
            v = v')"
proof -
  from assms have m: "more col = (q, col)"
    by (simp add: more_def)
  have "v = v'"
    if "received (run evs col) q = Some v"
      and "received (run evs' (run evs col)) q = Some v'" for evs evs' v v'
    using received_run [OF that(1), of evs'] that(2) by simp
  with m show ?thesis
    by simp
qed

theorem more_single_flight_witness:
  "moreQ (Collection None :: (nat, nat) collection) = Some 0 \<and>
   more (Collection None :: (nat, nat) collection) = (0, Collection None) \<and>
   received (run [QuerySettles 0 (Resolve [1, 2]), FinallyRuns 0] (Collection None :: (nat, nat) collection)) 0 =
     Some (LoadResult \<lparr>items = [1, 2], oldLength = 0, newLength = 2, firstSuccessfulQuery = True\<rparr>)"
  using more_single_flight [of "Collection None :: (nat, nat) collection" 0]
  by (simp add: Collection_def refresh_def more_def onFulfilled_def onFinally_def received_def Let_def)

subsection \<open>A fresh load that succeeds\<close>

text \<open>
  C2. When \<open>moreQ\<close> is empty, \<open>more\<close> calls the query with the length of the
  collection at that moment and puts the new promise in \<open>moreQ\<close>. When the query
  resolves with \<open>newItems\<close>, they are appended in order to the collection as it then
  is, \<open>loadingState\<close> becomes \<open>Loaded\<close>, and the promise is fulfilled with the
  record of \<open>newItems\<close>, the length snapshotted at the call, the length after the
  append, and the flag: the state snapshotted at the call was \<open>Loading\<close> and the
  length after the append is positive. Calls of \<open>more\<close> and \<open>refresh\<close> made in
  between (\<open>mid\<close> before the query settles, \<open>mid'\<close> before the \<open>finally\<close>
  callback) do not change this.
\<close>

theorem more_fresh_success:
  assumes fresh: "moreQ col = None"
    and mid: "set mid \<subseteq> {More, Refresh}"
    and mid': "set mid' \<subseteq> {More, Refresh}"
    and q: "q = fst (more col)"
    and col1: "col1 = run mid (snd (more col))"
    and col2: "col2 = step (QuerySettles q (Resolve newItems)) col1"
    and col3: "col3 = step (FinallyRuns q) (run mid' col2)"
  shows "queryCalls (snd (more col)) = queryCalls col @ [length (arr col)] \<and>
         moreQ (snd (more col)) = Some q \<and>
         arr (snd (more col)) = arr col \<and>
         arr col2 = arr col1 @ newItems \<and>
         loadingState col2 = Loaded \<and>
         received col3 q =
           Some (LoadResult \<lparr>items = newItems, oldLength = length (arr col),
                   newLength = length (arr col2),
                   firstSuccessfulQuery = (loadingState col = Loading \<and> 0 < length (arr col2))\<rparr>)"
proof -
  let ?m = "snd (more col)"
  have q': "q = length (chains col)"
    using q fresh by (simp add: more_fresh)
  have m: "?m = col\<lparr>moreQ := Some q, queryCalls := queryCalls col @ [length (arr col)],
         chains := chains col @
           [\<lparr>lenBef = length (arr col), stateBef = loadingState col, status = Pending\<rparr>]\<rparr>"
    using fresh q' by (simp add: more_fresh)
  have mq: "moreQ ?m = Some q" by (simp add: m)
  have c1: "col1 = (if Refresh \<in> set mid then ?m\<lparr>arr := [], loadingState := Loading\<rparr> else ?m)"
    unfolding col1 by (rule user_calls_outstanding [OF mq mid])
  have c1q: "q < length (chains col1)" "chains col1 ! q =
      \<lparr>lenBef = length (arr col), stateBef = loadingState col, status = Pending\<rparr>"
    "moreQ col1 = Some q"
    by (simp_all add: c1 m q')
  have c2: "col2 = onFulfilled q newItems col1"
    unfolding col2 using c1q by simp
  have c2q: "q < length (chains col2)" "moreQ col2 = Some q"
    "status (chains col2 ! q) = Handled (LoadResult \<lparr>items = newItems, oldLength = length (arr col),
                   newLength = length (arr col2),
                   firstSuccessfulQuery = (loadingState col = Loading \<and> 0 < length (arr col2))\<rparr>)"
    "arr col2 = arr col1 @ newItems" "loadingState col2 = Loaded"
    using c1q by (simp_all add: c2 onFulfilled_def Let_def)
  have "run mid' col2 = (if Refresh \<in> set mid' then col2\<lparr>arr := [], loadingState := Loading\<rparr> else col2)"
    by (rule user_calls_outstanding [OF c2q(2) mid'])
  then have c3: "q < length (chains (run mid' col2))"
    "status (chains (run mid' col2) ! q) = status (chains col2 ! q)"
    using c2q(1) by simp_all
  have "received col3 q = Some (LoadResult \<lparr>items = newItems, oldLength = length (arr col),
                   newLength = length (arr col2),
                   firstSuccessfulQuery = (loadingState col = Loading \<and> 0 < length (arr col2))\<rparr>)"
    unfolding col3 using c3 c2q(3) by (simp add: received_def onFinally_def Let_def)
  with c2q(4,5) show ?thesis
    by (simp add: m)
qed

theorem more_fresh_success_witness:
  "moreQ ((Collection (Some False) :: (nat, nat) collection)\<lparr>arr := [], loadingState := Loading\<rparr>) = None \<and>
   set [More :: (nat, nat) event] \<subseteq> {More, Refresh} \<and>
   received
     (step (FinallyRuns 0)
       (run [More]
         (step (QuerySettles 0 (Resolve [1, 2]))
           (run [More]
             (snd (more ((Collection (Some False) :: (nat, nat) collection)
                \<lparr>arr := [], loadingState := Loading\<rparr>))))))) 0 =
     Some (LoadResult \<lparr>items = [1, 2], oldLength = 0, newLength = 2, firstSuccessfulQuery = True\<rparr>)"
proof -
  let ?c = "(Collection (Some False) :: (nat, nat) collection)\<lparr>arr := [], loadingState := Loading\<rparr>"
  have h: "moreQ ?c = None"
    by (simp add: Collection_def)
  have m: "set [More :: (nat, nat) event] \<subseteq> {More, Refresh}"
    by simp
  from more_fresh_success [OF h m m refl refl refl refl, of "[1, 2]"] h m show ?thesis
    by (simp add: Collection_def more_def onFulfilled_def Let_def)
qed

subsection \<open>A load that fails\<close>

text \<open>
  C3. When the query of a pending chain fails with \<open>err\<close>, the failure handler sets
  \<open>loadingState\<close> to \<open>Failed\<close> and returns \<open>err\<close>; once the \<open>finally\<close>
  callback has run, the promise that \<open>more\<close> or \<open>refresh\<close> returned is fulfilled
  with \<open>err\<close> itself: it is not rejected. Calls of \<open>more\<close> and \<open>refresh\<close>
  made between the two jobs (\<open>mid\<close>) do not change the value.
\<close>

theorem failure_as_value:
  assumes q: "q < length (chains col)"
    and pending: "status (chains col ! q) = Pending"
    and mid: "set mid \<subseteq> {More, Refresh}"
    and col1: "col1 = step (QuerySettles q (Reject err)) col"
    and col2: "col2 = step (FinallyRuns q) (run mid col1)"
  shows "loadingState col1 = Failed \<and>
         status (chains col1 ! q) = Handled (ErrorValue err) \<and>
         received col2 q = Some (ErrorValue err) \<and>
         (\<forall>r. status (chains col2 ! q) \<noteq> Rejected r)"
proof -
  have c1: "col1 = onRejected q err col"
    unfolding col1 using q pending by simp
  have c1q: "q < length (chains col1)" "status (chains col1 ! q) = Handled (ErrorValue err)"
    "loadingState col1 = Failed"
    using q by (simp_all add: c1 onRejected_def Let_def)
  from user_calls_keep_chain [OF mid c1q(1)]
  have k: "q < length (chains (run mid col1))"
    "status (chains (run mid col1) ! q) = Handled (ErrorValue err)"
    using c1q(2) by simp_all
  have c2: "col2 = onFinally q (ErrorValue err) (run mid col1)"
    unfolding col2 using k by simp
  have "q < length (chains col2)" "status (chains col2 ! q) = Fulfilled (ErrorValue err)"
    using k(1) by (simp_all add: c2 onFinally_def Let_def)
  then have "received col2 q = Some (ErrorValue err)" "\<forall>r. status (chains col2 ! q) \<noteq> Rejected r"
    by (simp_all add: received_def)
  with c1q show ?thesis
    by simp
qed

theorem failure_as_value_witness:
  "(0::nat) < length (chains (Collection None :: (nat, string) collection)) \<and>
   status (chains (Collection None :: (nat, string) collection) ! 0) = Pending \<and>
   set [Refresh :: (nat, string) event] \<subseteq> {More, Refresh} \<and>
   loadingState (step (QuerySettles 0 (Reject ''timeout'')) (Collection None :: (nat, string) collection)) = Failed \<and>
   received
     (step (FinallyRuns 0)
        (run [Refresh] (step (QuerySettles 0 (Reject ''timeout'')) (Collection None :: (nat, string) collection)))) 0 =
     Some (ErrorValue ''timeout'')"
proof -
  let ?c = "Collection None :: (nat, string) collection"
  have q: "0 < length (chains ?c)" and p: "status (chains ?c ! 0) = Pending"
    by (simp_all add: Collection_def refresh_def more_def)
  have m: "set [Refresh :: (nat, string) event] \<subseteq> {More, Refresh}"
    by simp
  from failure_as_value [OF q p m refl refl, of "''timeout''"] q p m show ?thesis
    by (simp add: Collection_def refresh_def more_def onRejected_def onFinally_def received_def Let_def)
qed

subsection \<open>One load at a time\<close>

text \<open>
  In every state that a collection reaches from its construction, the promises that callers
  are still waiting for are exactly the one in \<open>moreQ\<close>, if any.
\<close>

lemma handler_keeps_received:
  assumes "p < length (chains col)" and "status (chains col ! p) = Pending"
  shows "length (chains (onFulfilled p its col)) = length (chains col)"
    and "moreQ (onFulfilled p its col) = moreQ col"
    and "received (onFulfilled p its col) q = received col q"
    and "length (chains (onRejected p err col)) = length (chains col)"
    and "moreQ (onRejected p err col) = moreQ col"
    and "received (onRejected p err col) q = received col q"
  using assms
  by (auto simp: onFulfilled_def onRejected_def received_def Let_def nth_list_update)

lemma single_outstanding_step:
  assumes "\<forall>q. (q < length (chains col) \<and> received col q = None) = (moreQ col = Some q)"
  shows "\<forall>q. (q < length (chains (step ev col)) \<and> received (step ev col) q = None) =
              (moreQ (step ev col) = Some q)"
proof (cases ev)
  case More
  show ?thesis
  proof (cases "moreQ col")
    case None
    with assms More show ?thesis
      by (auto simp: more_fresh received_def nth_append)
  next
    case (Some p)
    with assms More show ?thesis
      by (simp add: more_outstanding)
  qed
next
  case Refresh
  let ?c = "col\<lparr>arr := [], loadingState := Loading\<rparr>"
  have r: "received ?c q = received col q" for q
    by (simp add: received_def)
  show ?thesis
  proof (cases "moreQ col")
    case None
    with assms Refresh r show ?thesis
      by (auto simp: refresh_def more_fresh received_def nth_append)
  next
    case (Some p)
    then have "moreQ ?c = Some p" by simp
    with assms Refresh r Some show ?thesis
      by (simp add: refresh_def more_outstanding)
  qed
next
  case (QuerySettles p out)
  show ?thesis
  proof (cases "p < length (chains col) \<and> status (chains col ! p) = Pending")
    case True
    let ?c = "step ev col"
    have "length (chains ?c) = length (chains col) \<and> moreQ ?c = moreQ col \<and>
          received ?c q = received col q" for q
      using True QuerySettles by (simp add: handler_keeps_received split: outcome.splits)
    with assms show ?thesis
      by simp
  next
    case False
    with QuerySettles have "step ev col = col"
      by auto
    with assms show ?thesis
      by simp
  qed
next
  case (FinallyRuns p)
  show ?thesis
  proof (cases "p < length (chains col) \<and> (\<exists>v. status (chains col ! p) = Handled v)")
    case True
    then obtain v where p: "p < length (chains col)" and h: "status (chains col ! p) = Handled v"
      by blast
    from p h have "received col p = None"
      by (simp add: received_def)
    with assms p have mq: "moreQ col = Some p"
      by blast
    have "q < length (chains col) \<Longrightarrow> q \<noteq> p \<Longrightarrow> received col q \<noteq> None" for q
      using assms mq by auto
    then have "q < length (chains col) \<Longrightarrow> received (onFinally p v col) q \<noteq> None" for q
      by (cases "q = p") (auto simp: received_def onFinally_def Let_def nth_list_update)
    with FinallyRuns p h show ?thesis
      by (auto simp: onFinally_def Let_def)
  next
    case False
    with FinallyRuns have "step ev col = col"
      by (auto split: promise_status.splits)
    with assms show ?thesis
      by simp
  qed
qed

lemma single_outstanding_run:
  "\<forall>q. (q < length (chains col) \<and> received col q = None) = (moreQ col = Some q) \<Longrightarrow>
   \<forall>q. (q < length (chains (run evs col)) \<and> received (run evs col) q = None) =
       (moreQ (run evs col) = Some q)"
proof (induction evs arbitrary: col)
  case Nil
  then show ?case by simp
next
  case (Cons ev evs)
  from Cons.IH [OF single_outstanding_step [OF Cons.prems]] show ?case
    by simp
qed

lemma single_outstanding_Collection:
  "(q < length (chains (Collection loadNow)) \<and> received (Collection loadNow) q = None) =
   (moreQ (Collection loadNow) = Some q)"
  by (auto simp: Collection_def refresh_def more_def received_def Let_def)

lemma single_outstanding:
  "(q < length (chains (run evs (Collection loadNow))) \<and>
    received (run evs (Collection loadNow)) q = None) =
   (moreQ (run evs (Collection loadNow)) = Some q)"
  using single_outstanding_run [of "Collection loadNow" evs] single_outstanding_Collection
  by blast

subsection \<open>Refresh\<close>

text \<open>
  C5. From any state, when \<open>refresh\<close> returns the collection is empty and
  \<open>loadingState\<close> is \<open>Loading\<close>; the promise it returns is the one in
  \<open>moreQ\<close>, and in a state reached from the construction that promise has not been
  fulfilled yet: the reset does not wait for the query.
\<close>

theorem refresh_resets:
  "arr (snd (refresh col)) = [] \<and>
   loadingState (snd (refresh col)) = Loading \<and>
   moreQ (snd (refresh col)) = Some (fst (refresh col)) \<and>
   (\<forall>evs loadNow. col = run evs (Collection loadNow) \<longrightarrow>
      received (snd (refresh col)) (fst (refresh col)) = None)"
proof -
  let ?c = "col\<lparr>arr := [], loadingState := Loading\<rparr>"
  have a: "arr (snd (refresh col)) = [] \<and> loadingState (snd (refresh col)) = Loading \<and>
           moreQ (snd (refresh col)) = Some (fst (refresh col))"
    by (cases "moreQ col") (simp_all add: refresh_def more_fresh more_outstanding)
  have "received (snd (refresh col)) (fst (refresh col)) = None"
    if "col = run evs (Collection loadNow)" for evs loadNow
  proof -
    have "moreQ (run (evs @ [Refresh]) (Collection loadNow)) =
          Some (fst (refresh col))"
      using a that by (simp add: run_append)
    then have "received (run (evs @ [Refresh]) (Collection loadNow)) (fst (refresh col)) = None"
      using single_outstanding [of "fst (refresh col)" "evs @ [Refresh]" loadNow] by simp
    then show ?thesis
      using that by (simp add: run_append)
  qed
  with a show ?thesis
    by blast
qed

theorem refresh_resets_witness:
  "arr (run [QuerySettles 0 (Resolve [1, 2]), FinallyRuns 0, More]
          (Collection None :: (nat, nat) collection)) = [1, 2] \<and>
   loadingState (run [QuerySettles 0 (Resolve [1, 2]), FinallyRuns 0, More]
          (Collection None :: (nat, nat) collection)) = Loaded \<and>
   arr (snd (refresh (run [QuerySettles 0 (Resolve [1, 2]), FinallyRuns 0, More]
          (Collection None :: (nat, nat) collection)))) = [] \<and>
   loadingState (snd (refresh (run [QuerySettles 0 (Resolve [1, 2]), FinallyRuns 0, More]
          (Collection None :: (nat, nat) collection)))) = Loading \<and>
   received (snd (refresh (run [QuerySettles 0 (Resolve [1, 2]), FinallyRuns 0, More]
          (Collection None :: (nat, nat) collection))))
     (fst (refresh (run [QuerySettles 0 (Resolve [1, 2]), FinallyRuns 0, More]
          (Collection None :: (nat, nat) collection)))) = None"
proof -
  let ?c = "run [QuerySettles 0 (Resolve [1, 2]), FinallyRuns 0, More]
              (Collection None :: (nat, nat) collection)"
  from refresh_resets [of ?c]
  have "arr (snd (refresh ?c)) = [] \<and> loadingState (snd (refresh ?c)) = Loading \<and>
        received (snd (refresh ?c)) (fst (refresh ?c)) = None"
    by blast
  moreover have "arr ?c = [1, 2] \<and> loadingState ?c = Loaded"
    by (simp add: Collection_def refresh_def more_def onFulfilled_def onFinally_def Let_def)
  ultimately show ?thesis
    by simp
qed

subsection \<open>The loading state\<close>

text \<open>
  C4 says that a call of \<open>more\<close> made from \<open>Loaded\<close> or \<open>Failed\<close> moves
  \<open>loadingState\<close> back to \<open>Loading\<close>, so that \<open>Loading\<close> holds exactly
  while a fresh attempt is outstanding. \<open>more\<close> never assigns \<open>loadingState\<close>:
  after a first load of one item, a second call of \<open>more\<close> leaves a pending attempt in
  \<open>moreQ\<close> and the state \<open>Loaded\<close>.
\<close>

theorem loadingState_more_counterexample:
  "loadingState (run [QuerySettles 0 (Resolve [1]), FinallyRuns 0]
      (Collection None :: (nat, nat) collection)) = Loaded \<and>
   moreQ (run [QuerySettles 0 (Resolve [1]), FinallyRuns 0]
      (Collection None :: (nat, nat) collection)) = None \<and>
   moreQ (run [QuerySettles 0 (Resolve [1]), FinallyRuns 0, More]
      (Collection None :: (nat, nat) collection)) = Some 1 \<and>
   status (chains (run [QuerySettles 0 (Resolve [1]), FinallyRuns 0, More]
      (Collection None :: (nat, nat) collection)) ! 1) = Pending \<and>
   loadingState (run [QuerySettles 0 (Resolve [1]), FinallyRuns 0, More]
      (Collection None :: (nat, nat) collection)) \<noteq> Loading"
  by (simp add: Collection_def refresh_def more_def onFulfilled_def onFinally_def Let_def)

text \<open>
  C4, as the code has it. \<open>more\<close> leaves \<open>loadingState\<close> as it is, and so does
  the \<open>finally\<close> callback; \<open>refresh\<close> sets it to \<open>Loading\<close>; the handler of
  a pending attempt sets it to \<open>Loaded\<close> when the query resolved and to \<open>Failed\<close>
  when it failed. Nothing else changes it.
\<close>

theorem loadingState_transitions:
  "loadingState (snd (more col)) = loadingState col \<and>
   loadingState (snd (refresh col)) = Loading \<and>
   loadingState (step (FinallyRuns q) col) = loadingState col \<and>
   loadingState (step (QuerySettles q out) col) =
     (if q < length (chains col) \<and> status (chains col ! q) = Pending
      then (case out of Resolve its \<Rightarrow> Loaded | Reject err \<Rightarrow> Failed)
      else loadingState col)"
proof -
  have "loadingState (snd (more col)) = loadingState col"
    by (cases "moreQ col") (simp_all add: more_fresh more_outstanding)
  moreover have "loadingState (snd (refresh col)) = Loading"
    by (cases "moreQ col") (simp_all add: refresh_def more_fresh more_outstanding)
  moreover have "loadingState (step (FinallyRuns q) col) = loadingState col"
    by (simp add: onFinally_def Let_def split: promise_status.splits)
  moreover have "loadingState (step (QuerySettles q out) col) =
     (if q < length (chains col) \<and> status (chains col ! q) = Pending
      then (case out of Resolve its \<Rightarrow> Loaded | Reject err \<Rightarrow> Failed)
      else loadingState col)"
    by (simp add: onFulfilled_def onRejected_def Let_def split: outcome.splits)
  ultimately show ?thesis
    by simp
qed

theorem loadingState_transitions_witness:
  "loadingState (run [QuerySettles 0 (Resolve [1]), FinallyRuns 0]
      (Collection None :: (nat, nat) collection)) = Loaded \<and>
   loadingState (snd (more (run [QuerySettles 0 (Resolve [1]), FinallyRuns 0]
      (Collection None :: (nat, nat) collection)))) = Loaded \<and>
   loadingState (step (QuerySettles 1 (Reject 7)) (snd (more (run [QuerySettles 0 (Resolve [1]), FinallyRuns 0]
      (Collection None :: (nat, nat) collection))))) = Failed"
proof -
  let ?c = "run [QuerySettles 0 (Resolve [1]), FinallyRuns 0] (Collection None :: (nat, nat) collection)"
  have l: "loadingState ?c = Loaded"
    by (simp add: Collection_def refresh_def more_def onFulfilled_def onFinally_def Let_def)
  have p: "1 < length (chains (snd (more ?c))) \<and> status (chains (snd (more ?c)) ! 1) = Pending"
    by (simp add: Collection_def refresh_def more_def onFulfilled_def onFinally_def Let_def)
  from loadingState_transitions [of ?c 0 "Reject 0"]
    loadingState_transitions [of "snd (more ?c)" 1 "Reject 7"] l p
  show ?thesis
    by simp
qed

text \<open>
  C6 says that every \<open>refresh\<close> leads to a query at offset \<open>0\<close> and that the
  slot of a load already outstanding is overwritten by the new attempt. \<open>refresh\<close>
  calls \<open>more\<close>, which returns at once when \<open>moreQ\<close> is set: with a second load
  outstanding (called at offset \<open>3\<close>), \<open>refresh\<close> returns that load's promise,
  calls no query and leaves \<open>moreQ\<close> and the chains as they were; the next query, after
  that load has brought two items, is called at offset \<open>2\<close>.
\<close>


theorem refresh_query_counterexample:
  "moreQ (run [QuerySettles 0 (Resolve [1, 2, 3]), FinallyRuns 0, More]
      (Collection None :: (nat, nat) collection)) = Some 1 \<and>
   queryCalls (run [QuerySettles 0 (Resolve [1, 2, 3]), FinallyRuns 0, More]
      (Collection None :: (nat, nat) collection)) = [0, 3] \<and>
   fst (refresh (run [QuerySettles 0 (Resolve [1, 2, 3]), FinallyRuns 0, More]
      (Collection None :: (nat, nat) collection))) = 1 \<and>
   queryCalls (snd (refresh (run [QuerySettles 0 (Resolve [1, 2, 3]), FinallyRuns 0, More]
      (Collection None :: (nat, nat) collection)))) = [0, 3] \<and>
   moreQ (snd (refresh (run [QuerySettles 0 (Resolve [1, 2, 3]), FinallyRuns 0, More]
      (Collection None :: (nat, nat) collection)))) = Some 1 \<and>
   length (chains (snd (refresh (run [QuerySettles 0 (Resolve [1, 2, 3]), FinallyRuns 0, More]
      (Collection None :: (nat, nat) collection))))) = 2 \<and>
   queryCalls (run [QuerySettles 0 (Resolve [1, 2, 3]), FinallyRuns 0, More, Refresh,
                    QuerySettles 1 (Resolve [4, 5]), FinallyRuns 1, More]
      (Collection None :: (nat, nat) collection)) = [0, 3, 2]"
  by (simp add: Collection_def refresh_def more_def onFulfilled_def onFinally_def Let_def)

text \<open>
  C6, as the code has it. \<open>refresh\<close> is \<open>more\<close> on the emptied collection in
  state \<open>Loading\<close>. With no load outstanding, the query is called at offset \<open>0\<close>
  and the new attempt, pending, is put in \<open>moreQ\<close>. With a load outstanding, no query
  is called, the promise of that load is returned, and \<open>moreQ\<close> and the chains are not
  touched.
\<close>

theorem refresh_delegates:
  "refresh col = more (col\<lparr>arr := [], loadingState := Loading\<rparr>) \<and>
   (moreQ col = None \<longrightarrow>
      fst (refresh col) = length (chains col) \<and>
      queryCalls (snd (refresh col)) = queryCalls col @ [0] \<and>
      moreQ (snd (refresh col)) = Some (length (chains col)) \<and>
      chains (snd (refresh col)) =
        chains col @ [\<lparr>lenBef = 0, stateBef = Loading, status = Pending\<rparr>]) \<and>
   (\<forall>q. moreQ col = Some q \<longrightarrow>
      refresh col = (q, col\<lparr>arr := [], loadingState := Loading\<rparr>) \<and>
      queryCalls (snd (refresh col)) = queryCalls col \<and>
      moreQ (snd (refresh col)) = Some q \<and>
      chains (snd (refresh col)) = chains col)"
  by (simp add: refresh_def more_fresh more_outstanding)

theorem refresh_delegates_witness:
  "moreQ (Collection (Some False) :: (nat, nat) collection) = None \<and>
   queryCalls (snd (refresh (Collection (Some False) :: (nat, nat) collection))) = [0] \<and>
   moreQ (snd (refresh (Collection (Some False) :: (nat, nat) collection))) = Some 0 \<and>
   moreQ (Collection None :: (nat, nat) collection) = Some 0 \<and>
   fst (refresh (Collection None :: (nat, nat) collection)) = 0 \<and>
   queryCalls (snd (refresh (Collection None :: (nat, nat) collection))) =
     queryCalls (Collection None :: (nat, nat) collection)"
proof -
  have a: "moreQ (Collection (Some False) :: (nat, nat) collection) = None"
    and c: "queryCalls (Collection (Some False) :: (nat, nat) collection) = []"
    and l: "length (chains (Collection (Some False) :: (nat, nat) collection)) = 0"
    by (simp_all add: Collection_def)
  have b: "moreQ (Collection None :: (nat, nat) collection) = Some 0"
    by (simp add: Collection_def refresh_def more_def)
  from refresh_delegates [of "Collection (Some False) :: (nat, nat) collection"]
    refresh_delegates [of "Collection None :: (nat, nat) collection"] a b c l
  show ?thesis
    by (simp add: Collection_def refresh_def more_def)
qed

subsection \<open>Clearing \<open>moreQ\<close>\<close>

lemma handler_leaves_handled:
  assumes "q < length (chains col)" and "status (chains col ! q) = Pending"
  shows "q < length (chains (step (QuerySettles q out) col)) \<and>
         (\<exists>v. status (chains (step (QuerySettles q out) col) ! q) = Handled v)"
  using assms by (cases out) (simp_all add: onFulfilled_def onRejected_def Let_def)

text \<open>
  C7. For every pending attempt, whether its query resolves or fails, and whatever calls of
  \<open>more\<close> and \<open>refresh\<close> are made before the handler runs (\<open>mid\<close>) or
  between the handler and the \<open>finally\<close> callback (\<open>mid'\<close>), \<open>moreQ\<close> is
  empty once the \<open>finally\<close> callback has run; the next call of \<open>more\<close> then
  makes a new promise, calls the query with the length of the collection, and leaves the
  new attempt pending in \<open>moreQ\<close>.
\<close>

theorem pendingLoad_cleared:
  assumes q: "q < length (chains col)"
    and pending: "status (chains col ! q) = Pending"
    and mid: "set mid \<subseteq> {More, Refresh}"
    and mid': "set mid' \<subseteq> {More, Refresh}"
    and col': "col' = step (FinallyRuns q) (run mid' (step (QuerySettles q out) (run mid col)))"
  shows "moreQ col' = None \<and>
         fst (more col') = length (chains col') \<and>
         q < fst (more col') \<and>
         queryCalls (snd (more col')) = queryCalls col' @ [length (arr col')] \<and>
         moreQ (snd (more col')) = Some (fst (more col')) \<and>
         status (chains (snd (more col')) ! fst (more col')) = Pending"
proof -
  let ?c1 = "step (QuerySettles q out) (run mid col)"
  from user_calls_keep_chain [OF mid q] pending
  have "q < length (chains (run mid col))" "status (chains (run mid col) ! q) = Pending"
    by simp_all
  from handler_leaves_handled [OF this]
  obtain v where c1: "q < length (chains ?c1)" "status (chains ?c1 ! q) = Handled v"
    by blast
  from user_calls_keep_chain [OF mid' c1(1)] c1(2)
  have k: "q < length (chains (run mid' ?c1))" "status (chains (run mid' ?c1) ! q) = Handled v"
    by simp_all
  have c: "col' = onFinally q v (run mid' ?c1)"
    unfolding col' using k by simp
  have n: "moreQ col' = None" and l: "q < length (chains col')"
    using k(1) by (simp_all add: c onFinally_def Let_def)
  from n l show ?thesis
    by (simp add: more_fresh)
qed

theorem pendingLoad_cleared_witness:
  "(0::nat) < length (chains (Collection None :: (nat, string) collection)) \<and>
   status (chains (Collection None :: (nat, string) collection) ! 0) = Pending \<and>
   set [Refresh :: (nat, string) event] \<subseteq> {More, Refresh} \<and>
   moreQ (step (FinallyRuns 0) (run [Refresh] (step (QuerySettles 0 (Reject ''down''))
            (run [Refresh] (Collection None :: (nat, string) collection))))) = None \<and>
   fst (more (step (FinallyRuns 0) (run [Refresh] (step (QuerySettles 0 (Reject ''down''))
            (run [Refresh] (Collection None :: (nat, string) collection)))))) = 1 \<and>
   queryCalls (snd (more (step (FinallyRuns 0) (run [Refresh] (step (QuerySettles 0 (Reject ''down''))
            (run [Refresh] (Collection None :: (nat, string) collection))))))) = [0, 0]"
proof -
  let ?c = "Collection None :: (nat, string) collection"
  have q: "0 < length (chains ?c)" and p: "status (chains ?c ! 0) = Pending"
    by (simp_all add: Collection_def refresh_def more_def)
  have m: "set [Refresh :: (nat, string) event] \<subseteq> {More, Refresh}"
    by simp
  from pendingLoad_cleared [OF q p m m refl, of "Reject ''down''"] q p m show ?thesis
    by (simp add: Collection_def refresh_def more_def onRejected_def onFinally_def Let_def)
qed

subsection \<open>The first successful query\<close>

text \<open>
  C8 says that \<open>firstSuccessfulQuery\<close> is true for the first successful load after a
  \<open>refresh\<close> that leaves the collection non-empty, and the comment of \<open>more\<close>
  calls it "a boolean indicating whether this was the first successful load of the
  collection". The code computes it from the state snapshotted at the call. A collection
  is constructed (which calls \<open>refresh\<close>), its first query fails, and \<open>more\<close> is
  called again: the second query brings two items, it is the first successful load, and
  the flag is false, because the snapshotted state was \<open>Failed\<close>.
\<close>

theorem firstSuccessfulQuery_after_failure:
  "received (run [QuerySettles 0 (Reject ''down''), FinallyRuns 0]
      (Collection None :: (nat, string) collection)) 0 = Some (ErrorValue ''down'') \<and>
   received (run [QuerySettles 0 (Reject ''down''), FinallyRuns 0, More,
                  QuerySettles 1 (Resolve [1, 2]), FinallyRuns 1]
      (Collection None :: (nat, string) collection)) 1 =
     Some (LoadResult \<lparr>items = [1, 2], oldLength = 0, newLength = 2,
             firstSuccessfulQuery = False\<rparr>)"
  by (simp add: Collection_def refresh_def more_def onFulfilled_def onRejected_def onFinally_def
        received_def Let_def)

subsection \<open>What changes the items\<close>

lemma arr_step:
  "arr (step More col) = arr col"
  "arr (step Refresh col) = []"
  "arr (step (FinallyRuns q) col) = arr col"
  "arr (step (QuerySettles q (Reject err)) col) = arr col"
  "arr (step (QuerySettles q (Resolve its)) col) =
     (if q < length (chains col) \<and> status (chains col ! q) = Pending
      then arr col @ its else arr col)"
proof -
  show "arr (step More col) = arr col"
    by (cases "moreQ col") (simp_all add: more_fresh more_outstanding)
  show "arr (step Refresh col) = []"
    by (cases "moreQ col") (simp_all add: refresh_def more_fresh more_outstanding)
  show "arr (step (FinallyRuns q) col) = arr col"
    by (simp add: onFinally_def Let_def split: promise_status.splits)
  show "arr (step (QuerySettles q (Reject err)) col) = arr col"
    by (simp add: onRejected_def Let_def)
  show "arr (step (QuerySettles q (Resolve its)) col) =
     (if q < length (chains col) \<and> status (chains col ! q) = Pending
      then arr col @ its else arr col)"
    by (simp add: onFulfilled_def Let_def)
qed

lemma arr_step_prefix: "ev \<noteq> Refresh \<Longrightarrow> prefix (arr col) (arr (step ev col))"
proof (cases ev)
  case (QuerySettles q out)
  then show ?thesis
    by (cases out) (simp_all only: arr_step prefix_order.order_refl prefixI split: if_splits, simp_all)
qed (simp_all only: arr_step prefix_order.order_refl, simp_all)

lemma arr_run_prefix: "Refresh \<notin> set evs \<Longrightarrow> prefix (arr col) (arr (run evs col))"
proof (induction evs arbitrary: col)
  case Nil
  then show ?case by simp
next
  case (Cons ev evs)
  from Cons.prems have ev: "ev \<noteq> Refresh" and evs: "Refresh \<notin> set evs"
    by auto
  from arr_step_prefix [OF ev, of col] Cons.IH [OF evs, of "step ev col"] show ?case
    by (auto intro: prefix_order.order_trans)
qed

text \<open>
  C9. The items change in two ways only: \<open>refresh\<close> empties them, and the success
  handler of a pending attempt appends the batch. A call of \<open>more\<close>, the
  \<open>finally\<close> callback and a failed load leave them as they are. So over any run
  without a \<open>refresh\<close> the items at the start are a prefix of the items at the end,
  and the length does not decrease.
\<close>

theorem arr_mutations:
  "arr (step More col) = arr col \<and>
   arr (step Refresh col) = [] \<and>
   arr (step (FinallyRuns q) col) = arr col \<and>
   arr (step (QuerySettles q (Reject err)) col) = arr col \<and>
   arr (step (QuerySettles q (Resolve its)) col) =
     (if q < length (chains col) \<and> status (chains col ! q) = Pending
      then arr col @ its else arr col) \<and>
   (\<forall>evs. Refresh \<notin> set evs \<longrightarrow>
      prefix (arr col) (arr (run evs col)) \<and> length (arr col) \<le> length (arr (run evs col)))"
proof -
  have "prefix (arr col) (arr (run evs col)) \<and> length (arr col) \<le> length (arr (run evs col))"
    if "Refresh \<notin> set evs" for evs
    using arr_run_prefix [OF that, of col] by (simp add: prefix_length_le)
  then show ?thesis
    by (simp only: arr_step) simp
qed

theorem arr_mutations_witness:
  "Refresh \<notin> set [QuerySettles 0 (Resolve [1, 2]), FinallyRuns 0, More,
                     QuerySettles 1 (Reject ''down''), FinallyRuns 1 :: (nat, string) event] \<and>
   prefix (arr (Collection None :: (nat, string) collection))
     (arr (run [QuerySettles 0 (Resolve [1, 2]), FinallyRuns 0, More,
                QuerySettles 1 (Reject ''down''), FinallyRuns 1]
            (Collection None :: (nat, string) collection))) \<and>
   arr (run [QuerySettles 0 (Resolve [1, 2]), FinallyRuns 0, More,
             QuerySettles 1 (Reject ''down''), FinallyRuns 1]
          (Collection None :: (nat, string) collection)) = [1, 2]"
proof -
  let ?evs = "[QuerySettles 0 (Resolve [1, 2]), FinallyRuns 0, More,
               QuerySettles 1 (Reject ''down''), FinallyRuns 1 :: (nat, string) event]"
  have n: "Refresh \<notin> set ?evs"
    by simp
  from arr_mutations [of "Collection None :: (nat, string) collection" 0 "''down''" "[]"] n
  have "prefix (arr (Collection None :: (nat, string) collection))
          (arr (run ?evs (Collection None :: (nat, string) collection)))"
    by blast
  moreover have "arr (run ?evs (Collection None :: (nat, string) collection)) = [1, 2]"
    by (simp add: Collection_def refresh_def more_def onFulfilled_def onRejected_def
          onFinally_def Let_def)
  ultimately show ?thesis
    using n by simp
qed

subsection \<open>Refresh during a load\<close>

text \<open>
  C10. When \<open>refresh\<close> is called while the attempt in \<open>moreQ\<close> is pending, it
  calls no query and returns that attempt's promise, having emptied the collection. When
  the query of that attempt then resolves, its batch becomes the whole content of the
  collection, and the promise is fulfilled with a result computed from the snapshots taken
  when the attempt was started: \<open>oldLength\<close> is the snapshotted length, which for a
  refresh that follows the call of \<open>more\<close> is the length just before the refresh, not
  \<open>0\<close>; \<open>newLength\<close> is the length of the batch.
\<close>

theorem refresh_during_load:
  assumes mq: "moreQ col = Some q"
    and q: "q < length (chains col)"
    and pending: "status (chains col ! q) = Pending"
    and col2: "col2 = step (QuerySettles q (Resolve its)) (snd (refresh col))"
  shows "refresh col = (q, col\<lparr>arr := [], loadingState := Loading\<rparr>) \<and>
         queryCalls (snd (refresh col)) = queryCalls col \<and>
         arr col2 = its \<and>
         received (step (FinallyRuns q) col2) q =
           Some (LoadResult \<lparr>items = its, oldLength = lenBef (chains col ! q),
                   newLength = length its,
                   firstSuccessfulQuery = (stateBef (chains col ! q) = Loading \<and> 0 < length its)\<rparr>) \<and>
         (\<forall>col0. moreQ col0 = None \<and> col = snd (more col0) \<longrightarrow>
            lenBef (chains col ! q) = length (arr col) \<and>
            stateBef (chains col ! q) = loadingState col)"
proof -
  let ?c = "col\<lparr>arr := [], loadingState := Loading\<rparr>"
  have r: "refresh col = (q, ?c)"
    using mq by (simp add: refresh_def more_outstanding)
  have c2: "col2 = onFulfilled q its ?c"
    unfolding col2 r using q pending by simp
  have h: "q < length (chains col2)" "arr col2 = its"
    "status (chains col2 ! q) =
       Handled (LoadResult \<lparr>items = its, oldLength = lenBef (chains col ! q),
                   newLength = length its,
                   firstSuccessfulQuery = (stateBef (chains col ! q) = Loading \<and> 0 < length its)\<rparr>)"
    using q by (simp_all add: c2 onFulfilled_def Let_def)
  have f: "received (step (FinallyRuns q) col2) q =
           Some (LoadResult \<lparr>items = its, oldLength = lenBef (chains col ! q),
                   newLength = length its,
                   firstSuccessfulQuery = (stateBef (chains col ! q) = Loading \<and> 0 < length its)\<rparr>)"
    using h(1,3) by (simp add: received_def onFinally_def Let_def)
  have s: "lenBef (chains col ! q) = length (arr col) \<and> stateBef (chains col ! q) = loadingState col"
    if "moreQ col0 = None \<and> col = snd (more col0)" for col0
  proof -
    from that have c: "col = snd (more col0)" and n: "moreQ col0 = None"
      by simp_all
    from mq have "q = length (chains col0)"
      unfolding c by (simp add: more_fresh [OF n])
    then show ?thesis
      unfolding c by (simp add: more_fresh [OF n])
  qed
  from r h(2) f s show ?thesis
    by simp
qed

theorem refresh_during_load_witness:
  "moreQ (run [QuerySettles 0 (Resolve [1, 2, 3]), FinallyRuns 0, More]
           (Collection None :: (nat, nat) collection)) = Some 1 \<and>
   arr (run [QuerySettles 0 (Resolve [1, 2, 3]), FinallyRuns 0, More]
           (Collection None :: (nat, nat) collection)) = [1, 2, 3] \<and>
   fst (refresh (run [QuerySettles 0 (Resolve [1, 2, 3]), FinallyRuns 0, More]
           (Collection None :: (nat, nat) collection))) = 1 \<and>
   queryCalls (snd (refresh (run [QuerySettles 0 (Resolve [1, 2, 3]), FinallyRuns 0, More]
           (Collection None :: (nat, nat) collection)))) = [0, 3] \<and>
   arr (step (QuerySettles 1 (Resolve [4, 5]))
          (snd (refresh (run [QuerySettles 0 (Resolve [1, 2, 3]), FinallyRuns 0, More]
           (Collection None :: (nat, nat) collection))))) = [4, 5] \<and>
   received (step (FinallyRuns 1) (step (QuerySettles 1 (Resolve [4, 5]))
          (snd (refresh (run [QuerySettles 0 (Resolve [1, 2, 3]), FinallyRuns 0, More]
           (Collection None :: (nat, nat) collection)))))) 1 =
     Some (LoadResult \<lparr>items = [4, 5], oldLength = 3, newLength = 2,
             firstSuccessfulQuery = False\<rparr>)"
proof -
  let ?init = "run [QuerySettles 0 (Resolve [1, 2, 3]), FinallyRuns 0]
               (Collection None :: (nat, nat) collection)"
  let ?c = "run [QuerySettles 0 (Resolve [1, 2, 3]), FinallyRuns 0, More]
               (Collection None :: (nat, nat) collection)"
  have mq: "moreQ ?c = Some 1" and q: "1 < length (chains ?c)"
    and p: "status (chains ?c ! 1) = Pending"
    by (simp_all add: Collection_def refresh_def more_def onFulfilled_def onFinally_def Let_def)
  have i: "moreQ ?init = None \<and> ?c = snd (more ?init)"
    by (simp add: Collection_def refresh_def more_def onFulfilled_def onFinally_def Let_def)
  have a: "arr ?c = [1, 2, 3]" and l: "loadingState ?c = Loaded" and c: "queryCalls ?c = [0, 3]"
    by (simp_all add: Collection_def refresh_def more_def onFulfilled_def onFinally_def Let_def)
  from refresh_during_load [OF mq q p refl, of "[4, 5]"] i
  have "fst (refresh ?c) = 1 \<and>
        queryCalls (snd (refresh ?c)) = queryCalls ?c \<and>
        arr (step (QuerySettles 1 (Resolve [4, 5])) (snd (refresh ?c))) = [4, 5] \<and>
        received (step (FinallyRuns 1) (step (QuerySettles 1 (Resolve [4, 5])) (snd (refresh ?c)))) 1 =
           Some (LoadResult \<lparr>items = [4, 5], oldLength = length (arr ?c),
                   newLength = length [4, 5 :: nat],
                   firstSuccessfulQuery = (loadingState ?c = Loading \<and> 0 < length [4, 5 :: nat])\<rparr>)"
    by (metis (no_types, lifting) fst_conv)
  then show ?thesis
    unfolding a l c using mq by simp
qed

end
